theory Spec2Isabelle
  imports Main "HOL-Library.Word"
begin

section \<open>Common conventions\<close>

text \<open>
  The classes of \<^verbatim>\<open>src/src/atomics.hpp\<close> are embedded as state-passing functions over
  records. Every operation is modelled for one thread at a time: an atomic
  \<^verbatim>\<open>load\<close>, \<^verbatim>\<open>store\<close>, \<^verbatim>\<open>exchange\<close>, \<^verbatim>\<open>fetch_add\<close> or \<^verbatim>\<open>fetch_sub\<close> is the plain read or
  update of the field, and \<^verbatim>\<open>fetch_add\<close>/\<^verbatim>\<open>fetch_sub\<close> return the value the field held
  \<^emph>\<open>before\<close> the update, as \<^verbatim>\<open>std::atomic\<close> specifies.

  Machine integers: \<^verbatim>\<open>int\<close> and \<^verbatim>\<open>unsigned\<close> are 32-bit words, \<^verbatim>\<open>std::size_t\<close> is a 64-bit
  word (LP64). A signed comparison of an \<^verbatim>\<open>int\<close> is \<open><s\<close>; where the source compares an
  \<^verbatim>\<open>int\<close> with a \<^verbatim>\<open>std::size_t\<close>, the usual arithmetic conversions turn the \<^verbatim>\<open>int\<close> into a
  \<^verbatim>\<open>std::size_t\<close> first, which is \<open>scast\<close> (sign extension) followed by the unsigned
  comparison; an \<^verbatim>\<open>unsigned\<close> is widened by \<open>ucast\<close>.

  An access outside a C++ array is undefined behaviour; the model reports it as the
  error value \<open>OutOfBounds\<close>. \<open>OutOfRange\<close> is the \<^verbatim>\<open>std::out_of_range\<close> exception.
\<close>

datatype error = OutOfBounds | OutOfRange

definition in_bounds :: "'a list \<Rightarrow> int \<Rightarrow> bool" where
  "in_bounds xs i \<longleftrightarrow> 0 \<le> i \<and> nat i < length xs"

section \<open>The bounded stack \<^verbatim>\<open>stack_t<T, S>\<close>\<close>

text \<open>
  \<^verbatim>\<open>std::atomic<int> count_{0}; T data_[S];\<close> The array \<open>s_data\<close> has \<open>S\<close> slots; the
  template parameter \<open>S\<close> is passed to the operations that read it.
\<close>

record 'a stack_t =
  s_count :: "32 word"
  s_data :: "'a list"

definition stack_size :: "64 word \<Rightarrow> 'a stack_t \<Rightarrow> 64 word" where
  "stack_size S st =
     (let count = s_count st in
      if count <s 0 then 0
      else if S < scast count then S
      else scast count)"

definition stack_push :: "64 word \<Rightarrow> 'a \<Rightarrow> 'a stack_t \<Rightarrow> (error + bool) \<times> 'a stack_t" where
  "stack_push S item st =
     (let count = s_count st;
          st1 = st\<lparr>s_count := s_count st + 1\<rparr>
      in if S \<le> scast count then (Inr False, st1\<lparr>s_count := s_count st1 - 1\<rparr>)
         else if in_bounds (s_data st1) (sint count)
              then (Inr True, st1\<lparr>s_data := (s_data st1)[nat (sint count) := item]\<rparr>)
              else (Inl OutOfBounds, st1))"

text \<open>\<^verbatim>\<open>pull(T& item)\<close>: the reference parameter is passed in and returned.\<close>

definition stack_pull :: "'a \<Rightarrow> 'a stack_t \<Rightarrow> (error + bool) \<times> 'a \<times> 'a stack_t" where
  "stack_pull item st =
     (let count = s_count st;
          st1 = st\<lparr>s_count := s_count st - 1\<rparr>
      in if count <s 0 then (Inr False, item, st1\<lparr>s_count := s_count st1 + 1\<rparr>)
         else if in_bounds (s_data st1) (sint count)
              then (Inr True, s_data st1 ! nat (sint count), st1)
              else (Inl OutOfBounds, item, st1))"

definition stack_pop :: "'a stack_t \<Rightarrow> (error + 'a option) \<times> 'a stack_t" where
  "stack_pop st =
     (let count = s_count st;
          st1 = st\<lparr>s_count := s_count st - 1\<rparr>
      in if count <s 0 then (Inr None, st1\<lparr>s_count := s_count st1 + 1\<rparr>)
         else if in_bounds (s_data st1) (sint count)
              then (Inr (Some (s_data st1 ! nat (sint count))), st1)
              else (Inl OutOfBounds, st1))"

section \<open>The bounded ring buffer \<^verbatim>\<open>buffer_t<T, S>\<close>\<close>

text \<open>\<^verbatim>\<open>std::atomic<unsigned> head_{0U}, tail_{0U}; T data_[S];\<close>\<close>

record 'a buffer_t =
  b_head :: "32 word"
  b_tail :: "32 word"
  b_data :: "'a list"

text \<open>
  The idiom \<^verbatim>\<open>if(++next >= S) next -= S;\<close> on an \<^verbatim>\<open>unsigned\<close> index: the comparison and
  the subtraction are done in \<^verbatim>\<open>std::size_t\<close>, the result is stored back as \<^verbatim>\<open>unsigned\<close>.
\<close>

definition wrap_next :: "64 word \<Rightarrow> 32 word \<Rightarrow> 32 word" where
  "wrap_next S i =
     (let next = i + 1 in
      if S \<le> ucast next then ucast ((ucast next :: 64 word) - S) else next)"

definition buffer_push :: "64 word \<Rightarrow> 'a \<Rightarrow> 'a buffer_t \<Rightarrow> (error + bool) \<times> 'a buffer_t" where
  "buffer_push S item b =
     (let tail = b_tail b;
          next = wrap_next S tail;
          head = b_head b
      in if next = head then (Inr False, b)
         else if in_bounds (b_data b) (uint tail)
              then (Inr True, b\<lparr>b_data := (b_data b)[unat tail := item], b_tail := next\<rparr>)
              else (Inl OutOfBounds, b))"

text \<open>
  \<^verbatim>\<open>pull\<close> and \<^verbatim>\<open>pop\<close> advance their local copy of \<^verbatim>\<open>head\<close> and then execute
  \<^verbatim>\<open>tail_.store(tail, ...)\<close> with the value of \<^verbatim>\<open>tail\<close> just loaded; \<^verbatim>\<open>head_\<close> is not
  written. \<^verbatim>\<open>pop\<close> ends with \<^verbatim>\<open>return head;\<close>: the optional is built from the advanced
  index, by the conversion \<open>of_unsigned\<close> from \<^verbatim>\<open>unsigned\<close> to \<open>T\<close> (a parameter here; the
  identity when \<open>T\<close> is \<^verbatim>\<open>unsigned\<close>).
\<close>

definition buffer_pull :: "64 word \<Rightarrow> 'a \<Rightarrow> 'a buffer_t \<Rightarrow> (error + bool) \<times> 'a \<times> 'a buffer_t" where
  "buffer_pull S item b =
     (let head = b_head b;
          tail = b_tail b
      in if head = tail then (Inr False, item, b)
         else if in_bounds (b_data b) (uint head)
              then (let item' = b_data b ! unat head;
                        head' = wrap_next S head
                    in (Inr True, item', b\<lparr>b_tail := tail\<rparr>))
              else (Inl OutOfBounds, item, b))"

definition buffer_pop ::
  "(32 word \<Rightarrow> 'a) \<Rightarrow> 64 word \<Rightarrow> 'a buffer_t \<Rightarrow> (error + 'a option) \<times> 'a buffer_t" where
  "buffer_pop of_unsigned S b =
     (let head = b_head b;
          tail = b_tail b
      in if head = tail then (Inr None, b)
         else if in_bounds (b_data b) (uint head)
              then (let item = b_data b ! unat head;
                        head' = wrap_next S head
                    in (Inr (Some (of_unsigned head')), b\<lparr>b_tail := tail\<rparr>))
              else (Inl OutOfBounds, b))"

section \<open>The hash dictionary \<^verbatim>\<open>dictionary_t<K, V, S>\<close>\<close>

text \<open>
  \<^verbatim>\<open>std::atomic<node*> table_[S]; std::atomic<std::size_t> count_{0};\<close> A bucket's chain
  of nodes, linked through \<^verbatim>\<open>next\<close> from the bucket head to \<^verbatim>\<open>nullptr\<close>, is the list of
  its (key, value) pairs in link order; a list cell is a node, and the \<^verbatim>\<open>new\<close> and
  \<^verbatim>\<open>delete\<close> of a node that is never linked has no effect on the table. \<^verbatim>\<open>std::hash<K>\<close> is
  the parameter \<open>hash\<close>, and \<open>S\<close> the number of buckets. The operations index
  \<^verbatim>\<open>table_\<close> at \<open>key_index\<close>, which is below \<open>S\<close> whenever \<open>0 < S\<close>; \<open>table_ok\<close> says that
  the table is the array of \<open>S\<close> buckets the class declares.
\<close>

record ('k, 'v) dictionary_t =
  d_table :: "('k \<times> 'v) list list"
  d_count :: "64 word"

definition table_ok :: "nat \<Rightarrow> ('k, 'v) dictionary_t \<Rightarrow> bool" where
  "table_ok S d \<longleftrightarrow> 0 < S \<and> length (d_table d) = S"

definition key_index :: "('k \<Rightarrow> nat) \<Rightarrow> nat \<Rightarrow> 'k \<Rightarrow> nat" where
  "key_index hash S key = hash key mod S"

definition dictionary :: "nat \<Rightarrow> ('k, 'v) dictionary_t" where
  "dictionary S = \<lparr>d_table = replicate S [], d_count = 0\<rparr>"

definition dict_clear :: "('k, 'v) dictionary_t \<Rightarrow> ('k, 'v) dictionary_t" where
  "dict_clear d = d\<lparr>d_table := map (\<lambda>bucket. []) (d_table d), d_count := 0\<rparr>"

text \<open>
  \<^verbatim>\<open>insert\<close>: with one thread the compare-and-swap of the bucket head from \<^verbatim>\<open>expected\<close> to
  \<^verbatim>\<open>made\<close> succeeds on the head just loaded.
\<close>

definition dict_insert ::
  "('k \<Rightarrow> nat) \<Rightarrow> nat \<Rightarrow> 'k \<Rightarrow> 'v \<Rightarrow> ('k, 'v) dictionary_t \<Rightarrow> bool \<times> ('k, 'v) dictionary_t" where
  "dict_insert hash S key val d =
     (let index = key_index hash S key;
          made = (key, val);
          expected = d_table d ! index
      in (True, d\<lparr>d_table := (d_table d)[index := made # expected],
                  d_count := d_count d + 1\<rparr>))"

text \<open>The scan of \<^verbatim>\<open>insert_or_assign\<close>: the first node with an equal key gets the value.\<close>

fun assign_chain :: "'k \<Rightarrow> 'v \<Rightarrow> ('k \<times> 'v) list \<Rightarrow> ('k \<times> 'v) list option" where
  "assign_chain key val [] = None"
| "assign_chain key val (current # rest) =
     (if fst current = key then Some ((fst current, val) # rest)
      else map_option ((#) current) (assign_chain key val rest))"

definition dict_insert_or_assign ::
  "('k \<Rightarrow> nat) \<Rightarrow> nat \<Rightarrow> 'k \<Rightarrow> 'v \<Rightarrow> ('k, 'v) dictionary_t \<Rightarrow> bool \<times> ('k, 'v) dictionary_t" where
  "dict_insert_or_assign hash S key val d =
     (let index = key_index hash S key
      in case assign_chain key val (d_table d ! index) of
           Some chain \<Rightarrow> (True, d\<lparr>d_table := (d_table d)[index := chain]\<rparr>)
         | None \<Rightarrow> (True, snd (dict_insert hash S key val d)))"

definition dict_emplace ::
  "('k \<Rightarrow> nat) \<Rightarrow> nat \<Rightarrow> 'k \<Rightarrow> 'v \<Rightarrow> ('k, 'v) dictionary_t \<Rightarrow> bool \<times> ('k, 'v) dictionary_t" where
  "dict_emplace hash S key val d =
     (let index = key_index hash S key;
          made = (key, val);
          expected = d_table d ! index
      in (True, d\<lparr>d_table := (d_table d)[index := made # expected],
                  d_count := d_count d + 1\<rparr>))"

text \<open>The scans of \<^verbatim>\<open>find\<close>, \<^verbatim>\<open>contains\<close>, \<^verbatim>\<open>try_emplace\<close> and \<^verbatim>\<open>at\<close>: the first equal key.\<close>

fun find_chain :: "'k \<Rightarrow> ('k \<times> 'v) list \<Rightarrow> 'v option" where
  "find_chain key [] = None"
| "find_chain key (current # rest) =
     (if fst current = key then Some (snd current) else find_chain key rest)"

fun contains_chain :: "'k \<Rightarrow> ('k \<times> 'v) list \<Rightarrow> bool" where
  "contains_chain key [] = False"
| "contains_chain key (current # rest) =
     (if fst current = key then True else contains_chain key rest)"

text \<open>
  \<^verbatim>\<open>try_emplace(K&& key, V&& value)\<close> first builds \<^verbatim>\<open>made\<close> with
  \<^verbatim>\<open>new node(std::move(key), std::move(value))\<close>, whose constructor move-constructs the
  node's key from \<^verbatim>\<open>key\<close>, and only then scans the chain with \<^verbatim>\<open>current->key == key\<close>:
  the scan compares against the object that was moved from. What a \<open>K\<close> holds after its
  move constructor took its content belongs to \<open>K\<close>, not to this class, so it is the
  parameter \<open>moved\<close>: the identity for keys whose move is a copy (integers, plain
  structs), the empty string for \<^verbatim>\<open>std::string\<close> in the common standard libraries. The
  bucket index is computed before the move, and \<^verbatim>\<open>emplace\<close> receives the key back out of
  \<^verbatim>\<open>made\<close>.
\<close>

definition dict_try_emplace ::
  "('k \<Rightarrow> 'k) \<Rightarrow> ('k \<Rightarrow> nat) \<Rightarrow> nat \<Rightarrow> 'k \<Rightarrow> 'v \<Rightarrow> ('k, 'v) dictionary_t
     \<Rightarrow> bool \<times> ('k, 'v) dictionary_t" where
  "dict_try_emplace moved hash S key val d =
     (let index = key_index hash S key;
          made = (key, val);
          key' = moved key
      in if contains_chain key' (d_table d ! index) then (False, d)
         else (True, snd (dict_emplace hash S (fst made) (snd made) d)))"

definition dict_find :: "('k \<Rightarrow> nat) \<Rightarrow> nat \<Rightarrow> 'k \<Rightarrow> ('k, 'v) dictionary_t \<Rightarrow> 'v option" where
  "dict_find hash S key d = find_chain key (d_table d ! key_index hash S key)"

definition dict_contains :: "('k \<Rightarrow> nat) \<Rightarrow> nat \<Rightarrow> 'k \<Rightarrow> ('k, 'v) dictionary_t \<Rightarrow> bool" where
  "dict_contains hash S key d = contains_chain key (d_table d ! key_index hash S key)"

definition dict_at :: "('k \<Rightarrow> nat) \<Rightarrow> nat \<Rightarrow> 'k \<Rightarrow> ('k, 'v) dictionary_t \<Rightarrow> error + 'v" where
  "dict_at hash S key d =
     (case find_chain key (d_table d ! key_index hash S key) of
        Some v \<Rightarrow> Inr v
      | None \<Rightarrow> Inl OutOfRange)"

text \<open>
  The scan of \<^verbatim>\<open>remove\<close> with its trailing pointer \<^verbatim>\<open>prev\<close>: the first node with an equal
  key is unlinked, from \<^verbatim>\<open>prev->next\<close> or from the bucket head.
\<close>

fun unlink_chain :: "'k \<Rightarrow> ('k \<times> 'v) list \<Rightarrow> ('k \<times> 'v) list option" where
  "unlink_chain key [] = None"
| "unlink_chain key (current # rest) =
     (if fst current = key then Some rest
      else map_option ((#) current) (unlink_chain key rest))"

definition dict_remove ::
  "('k \<Rightarrow> nat) \<Rightarrow> nat \<Rightarrow> 'k \<Rightarrow> ('k, 'v) dictionary_t \<Rightarrow> bool \<times> ('k, 'v) dictionary_t" where
  "dict_remove hash S key d =
     (let index = key_index hash S key
      in case unlink_chain key (d_table d ! index) of
           Some chain \<Rightarrow> (True, d\<lparr>d_table := (d_table d)[index := chain],
                                  d_count := d_count d - 1\<rparr>)
         | None \<Rightarrow> (False, d))"

definition dict_size :: "('k, 'v) dictionary_t \<Rightarrow> 64 word" where
  "dict_size d = d_count d"

text \<open>The nodes reachable from the bucket heads, bucket by bucket in chain order.\<close>

definition nodes :: "('k, 'v) dictionary_t \<Rightarrow> ('k \<times> 'v) list" where
  "nodes d = concat (d_table d)"

text \<open>Sequences of calls on one dictionary, each call on the state the last one left.\<close>

datatype ('k, 'v) operation =
    Insert 'k 'v
  | InsertOrAssign 'k 'v
  | Emplace 'k 'v
  | TryEmplace 'k 'v
  | Remove 'k
  | Clear

fun apply_operation ::
  "('k \<Rightarrow> 'k) \<Rightarrow> ('k \<Rightarrow> nat) \<Rightarrow> nat \<Rightarrow> ('k, 'v) operation \<Rightarrow> ('k, 'v) dictionary_t
     \<Rightarrow> ('k, 'v) dictionary_t" where
  "apply_operation moved hash S (Insert k v) d = snd (dict_insert hash S k v d)"
| "apply_operation moved hash S (InsertOrAssign k v) d = snd (dict_insert_or_assign hash S k v d)"
| "apply_operation moved hash S (Emplace k v) d = snd (dict_emplace hash S k v d)"
| "apply_operation moved hash S (TryEmplace k v) d = snd (dict_try_emplace moved hash S k v d)"
| "apply_operation moved hash S (Remove k) d = snd (dict_remove hash S k d)"
| "apply_operation moved hash S Clear d = dict_clear d"

fun run_operations ::
  "('k \<Rightarrow> 'k) \<Rightarrow> ('k \<Rightarrow> nat) \<Rightarrow> nat \<Rightarrow> ('k, 'v) operation list \<Rightarrow> ('k, 'v) dictionary_t
     \<Rightarrow> ('k, 'v) dictionary_t" where
  "run_operations moved hash S [] d = d"
| "run_operations moved hash S (x # xs) d =
     run_operations moved hash S xs (apply_operation moved hash S x d)"

text \<open>A sequence of \<^verbatim>\<open>insert\<close> calls, with the result of each call.\<close>

fun insert_all ::
  "('k \<Rightarrow> nat) \<Rightarrow> nat \<Rightarrow> ('k \<times> 'v) list \<Rightarrow> ('k, 'v) dictionary_t
     \<Rightarrow> bool list \<times> ('k, 'v) dictionary_t" where
  "insert_all hash S [] d = ([], d)"
| "insert_all hash S ((k, v) # kvs) d =
     (let (r, d1) = dict_insert hash S k v d;
          (rs, d2) = insert_all hash S kvs d1
      in (r # rs, d2))"

text \<open>A sequence of \<^verbatim>\<open>insert_or_assign\<close> calls.\<close>

fun insert_or_assign_all ::
  "('k \<Rightarrow> nat) \<Rightarrow> nat \<Rightarrow> ('k \<times> 'v) list \<Rightarrow> ('k, 'v) dictionary_t \<Rightarrow> ('k, 'v) dictionary_t" where
  "insert_or_assign_all hash S [] d = d"
| "insert_or_assign_all hash S ((k, v) # kvs) d =
     insert_or_assign_all hash S kvs (snd (dict_insert_or_assign hash S k v d))"

text \<open>
  The shape of a table in which every key has its place: each chain holds only keys that
  hash to its bucket, and no key twice.
\<close>

definition chains_ok :: "('k \<Rightarrow> nat) \<Rightarrow> nat \<Rightarrow> ('k, 'v) dictionary_t \<Rightarrow> bool" where
  "chains_ok hash S d \<longleftrightarrow>
     table_ok S d
     \<and> (\<forall>i < S. distinct (map fst (d_table d ! i))
                \<and> (\<forall>n \<in> set (d_table d ! i). key_index hash S (fst n) = i))"

text \<open>The nodes of the table that hold a given key.\<close>

definition key_nodes :: "'k \<Rightarrow> ('k, 'v) dictionary_t \<Rightarrow> ('k \<times> 'v) list" where
  "key_nodes key d = filter (\<lambda>n. fst n = key) (nodes d)"

text \<open>
  The state of a \<^verbatim>\<open>std::string\<close> after its content was moved out: empty, in libstdc++,
  libc++ and the Microsoft library alike.
\<close>

definition moved_string :: "string \<Rightarrow> string" where
  "moved_string s = []"

text \<open>The invariant of the count: \<^verbatim>\<open>count_\<close> is the number of reachable nodes.\<close>

definition counted :: "nat \<Rightarrow> ('k, 'v) dictionary_t \<Rightarrow> bool" where
  "counted S d \<longleftrightarrow> table_ok S d \<and> d_count d = of_nat (length (nodes d))"

section \<open>Properties of the bounded stack\<close>

lemma uint_scast_nonneg:
  fixes c :: "32 word"
  assumes "0 \<le> sint c"
  shows "uint (scast c :: 64 word) = sint c"
proof -
  have up: "sint (scast c :: 64 word) = sint c"
    by (rule sint_up_scast) (simp add: is_up)
  have "sint c < 2 ^ 31"
    using sint_lt [of c] by simp
  then have lt: "sint c < 2 ^ 64"
    by (rule less_trans) simp
  have "uint (scast c :: 64 word) = take_bit 64 (sint (scast c :: 64 word))"
    using uint_sint [of "scast c :: 64 word"] by simp
  also have "\<dots> = take_bit 64 (sint c)"
    by (simp only: up)
  also have "\<dots> = sint c"
    using assms lt by (simp add: take_bit_int_eq_self)
  finally show ?thesis .
qed

text \<open>
  C9. \<^verbatim>\<open>stack_t::size()\<close> returns a value between 0 and \<open>S\<close> inclusive: it is 0 whenever
  the occupancy counter is negative, \<open>S\<close> whenever the counter exceeds \<open>S\<close>, and the
  counter itself in between.
\<close>

theorem stack_size_clamped:
  "stack_size S st \<le> S
   \<and> (sint (s_count st) < 0 \<longrightarrow> stack_size S st = 0)
   \<and> (uint S < sint (s_count st) \<longrightarrow> stack_size S st = S)
   \<and> (0 \<le> sint (s_count st) \<and> sint (s_count st) \<le> uint S
        \<longrightarrow> uint (stack_size S st) = sint (s_count st))"
proof (intro conjI impI)
  show "stack_size S st \<le> S"
    by (simp add: stack_size_def Let_def not_less)
next
  assume "sint (s_count st) < 0"
  then show "stack_size S st = 0"
    by (simp add: stack_size_def Let_def word_sless_alt)
next
  assume big: "uint S < sint (s_count st)"
  have "0 \<le> uint S" by simp
  with big have nonneg: "0 \<le> sint (s_count st)" by linarith
  then have "uint (scast (s_count st) :: 64 word) = sint (s_count st)"
    by (rule uint_scast_nonneg)
  with big have "S < scast (s_count st)"
    by (simp add: word_less_def)
  with nonneg show "stack_size S st = S"
    by (simp add: stack_size_def Let_def word_sless_alt)
next
  assume range: "0 \<le> sint (s_count st) \<and> sint (s_count st) \<le> uint S"
  then have eq: "uint (scast (s_count st) :: 64 word) = sint (s_count st)"
    by (simp add: uint_scast_nonneg)
  with range have "\<not> S < scast (s_count st)"
    by (simp add: word_less_def)
  with range eq show "uint (stack_size S st) = sint (s_count st)"
    by (simp add: stack_size_def Let_def word_sless_alt)
qed

theorem stack_size_clamped_witness:
  "stack_size 3 \<lparr>s_count = - 1, s_data = [10, 20, 30 :: int]\<rparr> = 0
   \<and> stack_size 3 \<lparr>s_count = 5, s_data = [10, 20, 30 :: int]\<rparr> = 3
   \<and> uint (stack_size 3 \<lparr>s_count = 2, s_data = [10, 20, 30 :: int]\<rparr>) = 2"
  using stack_size_clamped [of 3 "\<lparr>s_count = - 1, s_data = [10, 20, 30 :: int]\<rparr>"]
        stack_size_clamped [of 3 "\<lparr>s_count = 5, s_data = [10, 20, 30 :: int]\<rparr>"]
        stack_size_clamped [of 3 "\<lparr>s_count = 2, s_data = [10, 20, 30 :: int]\<rparr>"]
  by simp

text \<open>
  C3. On an empty stack (occupancy counter 0) \<^verbatim>\<open>pop()\<close> should return the empty optional
  and \<^verbatim>\<open>pull(item)\<close> should return false, both leaving the counter at 0. The code tests
  the value \<^verbatim>\<open>fetch_sub\<close> returned, which is the counter before the decrement: at 0 the
  test \<^verbatim>\<open>count < 0\<close> fails, slot 0 is handed out and the counter is left at -1.
\<close>

theorem stack_pop_pull_at_zero:
  "stack_pop \<lparr>s_count = 0, s_data = x # xs\<rparr>
     = (Inr (Some x), \<lparr>s_count = - 1, s_data = x # xs\<rparr>)
   \<and> stack_pull item \<lparr>s_count = 0, s_data = x # xs\<rparr>
     = (Inr True, x, \<lparr>s_count = - 1, s_data = x # xs\<rparr>)"
  by (simp add: stack_pop_def stack_pull_def in_bounds_def Let_def)

text \<open>
  C4. After a successful \<^verbatim>\<open>push(x)\<close> an immediately following \<^verbatim>\<open>pop()\<close> should return
  \<open>x\<close>. The push stores \<open>x\<close> in the slot numbered by the old counter; the pop reads the
  slot numbered by the counter before its own decrement, one above the slot just
  written: on a three-slot stack at occupancy 0 it returns the stale content of slot 1,
  and at occupancy 2 it reads past the end of the array.
\<close>

theorem stack_push_then_pop_reads_next_slot:
  "stack_push 3 x \<lparr>s_count = 0, s_data = [a, b, c]\<rparr>
     = (Inr True, \<lparr>s_count = 1, s_data = [x, b, c]\<rparr>)
   \<and> stack_pop \<lparr>s_count = 1, s_data = [x, b, c]\<rparr>
     = (Inr (Some b), \<lparr>s_count = 0, s_data = [x, b, c]\<rparr>)
   \<and> stack_push 3 x \<lparr>s_count = 2, s_data = [a, b, c]\<rparr>
     = (Inr True, \<lparr>s_count = 3, s_data = [a, b, x]\<rparr>)
   \<and> stack_pop \<lparr>s_count = 3, s_data = [a, b, x]\<rparr>
     = (Inl OutOfBounds, \<lparr>s_count = 2, s_data = [a, b, x]\<rparr>)"
  by (simp add: stack_push_def stack_pop_def in_bounds_def Let_def word_sless_alt)

section \<open>Properties of the ring buffer\<close>

text \<open>On an empty buffer (head equals tail) both calls report empty and change nothing.\<close>

lemma buffer_empty_reports:
  "b_head b = b_tail b \<Longrightarrow>
     buffer_pull S item b = (Inr False, item, b)
     \<and> buffer_pop of_unsigned S b = (Inr None, b)"
  by (simp add: buffer_pull_def buffer_pop_def Let_def)

text \<open>
  C2. A successful \<^verbatim>\<open>pull(item)\<close> or \<^verbatim>\<open>pop()\<close> should return the element at the head slot
  and advance the head index by one modulo \<open>S\<close>. In the code neither call ever changes
  the buffer: the advanced index stays in a local variable and the final store writes
  \<^verbatim>\<open>tail_\<close> back to itself, so \<^verbatim>\<open>head_\<close> is never advanced; and \<^verbatim>\<open>pop()\<close> returns the advanced
  index converted to \<open>T\<close>, not the element read. On a four-slot buffer with head 0 and
  tail 2, \<^verbatim>\<open>pull\<close> yields slot 0 and leaves head at 0, and \<^verbatim>\<open>pop\<close> yields the index 1.
\<close>

theorem buffer_pull_pop_keep_head:
  "snd (snd (buffer_pull S item b)) = b
   \<and> snd (buffer_pop of_unsigned S b) = b
   \<and> buffer_pull 4 item \<lparr>b_head = 0, b_tail = 2, b_data = [x0, x1, x2, x3]\<rparr>
       = (Inr True, x0, \<lparr>b_head = 0, b_tail = 2, b_data = [x0, x1, x2, x3]\<rparr>)
   \<and> buffer_pop of_unsigned 4 \<lparr>b_head = 0, b_tail = 2, b_data = [x0, x1, x2, x3]\<rparr>
       = (Inr (Some (of_unsigned 1)), \<lparr>b_head = 0, b_tail = 2, b_data = [x0, x1, x2, x3]\<rparr>)"
  by (simp add: buffer_pull_def buffer_pop_def wrap_next_def in_bounds_def Let_def word_le_def)

section \<open>Properties of the dictionary: the count\<close>

lemma key_index_less: "0 < S \<Longrightarrow> key_index hash S key < S"
  by (simp add: key_index_def)

lemma length_concat_update:
  "i < length xss \<Longrightarrow>
     length (concat (xss[i := c])) + length (xss ! i) = length (concat xss) + length c"
proof (induction xss arbitrary: i)
  case Nil
  then show ?case by simp
next
  case (Cons x xss)
  then show ?case by (cases i) auto
qed

lemma assign_chain_length: "assign_chain key val c = Some c' \<Longrightarrow> length c' = length c"
  by (induction c arbitrary: c') (auto split: if_splits)

lemma unlink_chain_length: "unlink_chain key c = Some c' \<Longrightarrow> Suc (length c') = length c"
  by (induction c arbitrary: c') (auto split: if_splits)

lemma counted_dictionary: "0 < S \<Longrightarrow> counted S (dictionary S)"
  by (simp add: counted_def table_ok_def dictionary_def nodes_def)

lemma concat_emptied: "concat (map (\<lambda>bucket. []) xss) = []"
  by (induction xss) simp_all

lemma counted_clear: "counted S d \<Longrightarrow> counted S (dict_clear d)"
  by (simp add: counted_def table_ok_def dict_clear_def nodes_def concat_emptied)

lemma counted_insert:
  assumes "counted S d"
  shows "counted S (snd (dict_insert hash S key val d))"
proof -
  let ?i = "key_index hash S key"
  from assms have i: "?i < length (d_table d)"
    by (simp add: counted_def table_ok_def key_index_less)
  from length_concat_update [OF i, of "(key, val) # d_table d ! ?i"]
  have "length (concat ((d_table d)[?i := (key, val) # d_table d ! ?i]))
          = Suc (length (concat (d_table d)))"
    by simp
  with assms show ?thesis
    by (simp add: counted_def table_ok_def dict_insert_def Let_def nodes_def)
qed

lemma counted_emplace:
  "counted S d \<Longrightarrow> counted S (snd (dict_emplace hash S key val d))"
  using counted_insert [of S d hash key val]
  by (simp add: dict_emplace_def dict_insert_def)

lemma counted_insert_or_assign:
  assumes "counted S d"
  shows "counted S (snd (dict_insert_or_assign hash S key val d))"
proof (cases "assign_chain key val (d_table d ! key_index hash S key)")
  case None
  with counted_insert [OF assms, of hash key val] show ?thesis
    by (simp add: dict_insert_or_assign_def Let_def)
next
  case (Some c')
  let ?i = "key_index hash S key"
  from assms have i: "?i < length (d_table d)"
    by (simp add: counted_def table_ok_def key_index_less)
  from length_concat_update [OF i, of c'] assign_chain_length [OF Some]
  have "length (concat ((d_table d)[?i := c'])) = length (concat (d_table d))"
    by simp
  with assms Some show ?thesis
    by (simp add: counted_def table_ok_def dict_insert_or_assign_def Let_def nodes_def)
qed

lemma counted_try_emplace:
  "counted S d \<Longrightarrow> counted S (snd (dict_try_emplace moved hash S key val d))"
  using counted_emplace [of S d hash key val]
  by (simp add: dict_try_emplace_def Let_def)

lemma counted_remove:
  assumes "counted S d"
  shows "counted S (snd (dict_remove hash S key d))"
proof (cases "unlink_chain key (d_table d ! key_index hash S key)")
  case None
  with assms show ?thesis
    by (simp add: dict_remove_def Let_def)
next
  case (Some c')
  let ?i = "key_index hash S key"
  from assms have i: "?i < length (d_table d)"
    by (simp add: counted_def table_ok_def key_index_less)
  from length_concat_update [OF i, of c'] unlink_chain_length [OF Some]
  have len: "Suc (length (concat ((d_table d)[?i := c']))) = length (concat (d_table d))"
    by simp
  have "d_count d - 1 = (of_nat (length (concat ((d_table d)[?i := c']))) :: 64 word)"
  proof -
    from assms have "d_count d = of_nat (Suc (length (concat ((d_table d)[?i := c']))))"
      by (simp only: len counted_def nodes_def)
    then show ?thesis by simp
  qed
  with assms Some show ?thesis
    by (simp add: counted_def table_ok_def dict_remove_def Let_def nodes_def)
qed

lemma counted_apply_operation:
  "counted S d \<Longrightarrow> counted S (apply_operation moved hash S x d)"
  by (cases x)
     (simp_all add: counted_insert counted_insert_or_assign counted_emplace
        counted_try_emplace counted_remove counted_clear)

lemma counted_run_operations:
  "counted S d \<Longrightarrow> counted S (run_operations moved hash S xs d)"
  by (induction xs arbitrary: d) (simp_all add: counted_apply_operation)

text \<open>
  C5. After every sequence of \<^verbatim>\<open>insert\<close>, \<^verbatim>\<open>insert_or_assign\<close>, \<^verbatim>\<open>emplace\<close>, \<^verbatim>\<open>try_emplace\<close>,
  \<^verbatim>\<open>remove\<close> and \<^verbatim>\<open>clear\<close> calls on a freshly constructed dictionary, \<^verbatim>\<open>size()\<close> is the
  number of nodes reachable from the bucket heads: as a \<^verbatim>\<open>std::size_t\<close>, and as a number
  whenever the nodes are fewer than \<open>2 ^ 64\<close>.
\<close>

theorem size_counts_reachable_nodes:
  assumes "0 < S"
  shows "dict_size (run_operations moved hash S xs (dictionary S))
           = of_nat (length (nodes (run_operations moved hash S xs (dictionary S))))
         \<and> (length (nodes (run_operations moved hash S xs (dictionary S))) < 2 ^ 64
              \<longrightarrow> unat (dict_size (run_operations moved hash S xs (dictionary S)))
                    = length (nodes (run_operations moved hash S xs (dictionary S))))"
proof -
  let ?d = "run_operations moved hash S xs (dictionary S)"
  from assms have "counted S ?d"
    by (simp add: counted_dictionary counted_run_operations)
  then have eq: "dict_size ?d = of_nat (length (nodes ?d))"
    by (simp add: counted_def dict_size_def)
  moreover have "unat (dict_size ?d) = length (nodes ?d)" if "length (nodes ?d) < 2 ^ 64"
    using that by (simp add: eq unat_of_nat)
  ultimately show ?thesis by blast
qed

lemma run_example:
  "run_operations id id 4
       [Insert (9::nat) (9::int), Clear, Insert 1 10, Insert 1 11, InsertOrAssign 2 5, TryEmplace 2 7,
        Emplace 3 1, Remove 1, Insert 5 6] (dictionary 4)
   = \<lparr>d_table = [[], [(5, 6), (1, 10)], [(2, 5)], [(3, 1)]], d_count = 4\<rparr>"
  by code_simp

theorem size_counts_reachable_nodes_witness:
  "dict_size (run_operations id id 4
       [Insert (9::nat) (9::int), Clear, Insert 1 10, Insert 1 11, InsertOrAssign 2 5, TryEmplace 2 7,
        Emplace 3 1, Remove 1, Insert 5 6] (dictionary 4)) = 4
   \<and> length (nodes (run_operations id id 4
       [Insert (9::nat) (9::int), Clear, Insert 1 10, Insert 1 11, InsertOrAssign 2 5, TryEmplace 2 7,
        Emplace 3 1, Remove 1, Insert 5 6] (dictionary 4))) = 4"
  using size_counts_reachable_nodes [of 4 id id
       "[Insert (9::nat) (9::int), Clear, Insert 1 10, Insert 1 11, InsertOrAssign 2 5, TryEmplace 2 7,
        Emplace 3 1, Remove 1, Insert 5 6]"]
  unfolding run_example
  by (simp add: nodes_def dict_size_def)

section \<open>Properties of the dictionary: lookup and insertion\<close>

lemma contains_chain_find: "contains_chain key c \<longleftrightarrow> find_chain key c \<noteq> None"
  by (induction c) simp_all

lemma contains_chain_keys: "contains_chain key c \<longleftrightarrow> key \<in> fst ` set c"
  by (induction c) auto

lemma dict_at_find:
  "dict_at hash S key d =
     (case dict_find hash S key d of Some v \<Rightarrow> Inr v | None \<Rightarrow> Inl OutOfRange)"
  by (simp add: dict_at_def dict_find_def)

lemma table_ok_insert: "table_ok S d \<Longrightarrow> table_ok S (snd (dict_insert hash S key val d))"
  by (simp add: table_ok_def dict_insert_def Let_def)

lemma find_insert:
  assumes "table_ok S d"
  shows "dict_find hash S k (snd (dict_insert hash S key val d))
           = (if k = key then Some val else dict_find hash S k d)"
proof -
  from assms have "key_index hash S key < length (d_table d)"
    by (simp add: table_ok_def key_index_less)
  then show ?thesis
    by (cases "key_index hash S k = key_index hash S key")
       (auto simp: dict_find_def dict_insert_def Let_def)
qed

lemma nodes_insert:
  assumes "table_ok S d"
  shows "length (nodes (snd (dict_insert hash S key val d))) = Suc (length (nodes d))"
proof -
  let ?i = "key_index hash S key"
  from assms have i: "?i < length (d_table d)"
    by (simp add: table_ok_def key_index_less)
  from length_concat_update [OF i, of "(key, val) # d_table d ! ?i"]
  show ?thesis
    by (simp add: dict_insert_def Let_def nodes_def)
qed

lemma size_insert: "dict_size (snd (dict_insert hash S key val d)) = dict_size d + 1"
  by (simp add: dict_insert_def dict_size_def Let_def)

lemma insert_succeeds: "fst (dict_insert hash S key val d) = True"
  by (simp add: dict_insert_def Let_def)

lemma insert_all_fst_Cons:
  "fst (insert_all hash S ((k, v) # kvs) d)
     = fst (dict_insert hash S k v d) # fst (insert_all hash S kvs (snd (dict_insert hash S k v d)))"
  by (simp add: Let_def case_prod_beta)

lemma insert_all_snd_Cons:
  "snd (insert_all hash S ((k, v) # kvs) d)
     = snd (insert_all hash S kvs (snd (dict_insert hash S k v d)))"
  by (simp add: Let_def case_prod_beta)

lemma insert_all_results:
  "fst (insert_all hash S kvs d) = replicate (length kvs) True"
proof (induction kvs arbitrary: d)
  case Nil
  then show ?case by simp
next
  case (Cons kv kvs)
  obtain k v where kv: "kv = (k, v)" by (cases kv)
  show ?case
    unfolding kv insert_all_fst_Cons by (simp add: Cons.IH insert_succeeds)
qed

lemma insert_all_table_ok:
  "table_ok S d \<Longrightarrow> table_ok S (snd (insert_all hash S kvs d))"
proof (induction kvs arbitrary: d)
  case Nil
  then show ?case by simp
next
  case (Cons kv kvs)
  obtain k v where kv: "kv = (k, v)" by (cases kv)
  from Cons.prems have "table_ok S (snd (dict_insert hash S k v d))"
    by (rule table_ok_insert)
  then show ?case
    unfolding kv insert_all_snd_Cons by (rule Cons.IH)
qed

lemma insert_all_size:
  "dict_size (snd (insert_all hash S kvs d)) = dict_size d + of_nat (length kvs)"
proof (induction kvs arbitrary: d)
  case Nil
  then show ?case by simp
next
  case (Cons kv kvs)
  obtain k v where kv: "kv = (k, v)" by (cases kv)
  show ?case
    unfolding kv insert_all_snd_Cons by (simp add: Cons.IH size_insert)
qed

lemma insert_all_nodes:
  "table_ok S d \<Longrightarrow>
     length (nodes (snd (insert_all hash S kvs d))) = length (nodes d) + length kvs"
proof (induction kvs arbitrary: d)
  case Nil
  then show ?case by simp
next
  case (Cons kv kvs)
  obtain k v where kv: "kv = (k, v)" by (cases kv)
  from Cons.prems have ok: "table_ok S (snd (dict_insert hash S k v d))"
    by (rule table_ok_insert)
  show ?case
    unfolding kv insert_all_snd_Cons
    by (simp add: Cons.IH [OF ok] nodes_insert [OF Cons.prems])
qed

lemma insert_all_find:
  "table_ok S d \<Longrightarrow>
     dict_find hash S key (snd (insert_all hash S kvs d))
       = (case map_of (rev kvs) key of Some v \<Rightarrow> Some v | None \<Rightarrow> dict_find hash S key d)"
proof (induction kvs arbitrary: d)
  case Nil
  then show ?case by simp
next
  case (Cons kv kvs)
  obtain k v where kv: "kv = (k, v)" by (cases kv)
  from Cons.prems have ok: "table_ok S (snd (dict_insert hash S k v d))"
    by (rule table_ok_insert)
  show ?case
    unfolding kv insert_all_snd_Cons
    by (simp add: Cons.IH [OF ok] find_insert [OF Cons.prems] map_add_def
          split: option.splits)
qed

lemma map_of_rev_last:
  "key \<notin> fst ` set after \<Longrightarrow> map_of (rev (before @ (key, v) # after)) key = Some v"
proof -
  assume "key \<notin> fst ` set after"
  then have "map_of (rev after) key = None"
    by (simp add: map_of_eq_None_iff)
  then show ?thesis
    by (simp add: map_add_def)
qed

text \<open>
  C8. In every sequence of \<^verbatim>\<open>insert(key, value)\<close> calls each call returns true and adds a
  node: \<^verbatim>\<open>size()\<close> and the number of reachable nodes grow by the number of calls, whether
  or not an equal key is present. Afterwards \<^verbatim>\<open>find(k)\<close> and \<^verbatim>\<open>at(k)\<close> return the value of
  the most recent insert with key \<open>k\<close>: the pair \<open>(k, v)\<close> of the call sequence \<open>kvs\<close> after
  which no pair has key \<open>k\<close>.
\<close>

theorem insert_always_prepends:
  assumes "table_ok S d"
  shows "fst (insert_all hash S kvs d) = replicate (length kvs) True
         \<and> dict_size (snd (insert_all hash S kvs d)) = dict_size d + of_nat (length kvs)
         \<and> length (nodes (snd (insert_all hash S kvs d))) = length (nodes d) + length kvs
         \<and> (\<forall>key v before after.
               kvs = before @ (key, v) # after \<and> key \<notin> fst ` set after \<longrightarrow>
               dict_find hash S key (snd (insert_all hash S kvs d)) = Some v
               \<and> dict_at hash S key (snd (insert_all hash S kvs d)) = Inr v)"
proof (intro conjI allI impI)
  show "fst (insert_all hash S kvs d) = replicate (length kvs) True"
    by (rule insert_all_results)
next
  show "dict_size (snd (insert_all hash S kvs d)) = dict_size d + of_nat (length kvs)"
    by (rule insert_all_size)
next
  show "length (nodes (snd (insert_all hash S kvs d))) = length (nodes d) + length kvs"
    using assms by (rule insert_all_nodes)
next
  fix key v before after
  assume "kvs = before @ (key, v) # after \<and> key \<notin> fst ` set after"
  then have "map_of (rev kvs) key = Some v"
    using map_of_rev_last [of key after before v] by simp
  with assms show "dict_find hash S key (snd (insert_all hash S kvs d)) = Some v"
    by (simp add: insert_all_find)
  then show "dict_at hash S key (snd (insert_all hash S kvs d)) = Inr v"
    by (simp add: dict_at_find)
qed

theorem insert_always_prepends_witness:
  "table_ok 4 (dictionary 4 :: (nat, int) dictionary_t)
   \<and> fst (insert_all id 4 [(1::nat, 10::int), (5, 20), (1, 30)] (dictionary 4)) = [True, True, True]
   \<and> dict_size (snd (insert_all id 4 [(1::nat, 10::int), (5, 20), (1, 30)] (dictionary 4))) = 3
   \<and> length (nodes (snd (insert_all id 4 [(1::nat, 10::int), (5, 20), (1, 30)] (dictionary 4)))) = 3
   \<and> dict_find id 4 1 (snd (insert_all id 4 [(1::nat, 10::int), (5, 20), (1, 30)] (dictionary 4)))
       = Some 30
   \<and> dict_at id 4 1 (snd (insert_all id 4 [(1::nat, 10::int), (5, 20), (1, 30)] (dictionary 4)))
       = Inr 30"
proof -
  let ?kvs = "[(1::nat, 10::int), (5, 20), (1, 30)]"
  let ?d = "dictionary 4 :: (nat, int) dictionary_t"
  have ok: "table_ok 4 ?d"
    by (simp add: table_ok_def dictionary_def)
  have last: "?kvs = [(1, 10), (5, 20)] @ (1, 30) # [] \<and> 1 \<notin> fst ` set ([] :: (nat \<times> int) list)"
    by simp
  have empty: "dict_size ?d = 0" "nodes ?d = []"
    by (simp_all add: dict_size_def nodes_def dictionary_def)
  note facts = insert_always_prepends [OF ok, of id ?kvs]
  from facts have "fst (insert_all id 4 ?kvs ?d) = [True, True, True]"
    by (simp add: numeral_3_eq_3)
  moreover from facts empty have "dict_size (snd (insert_all id 4 ?kvs ?d)) = 3"
    by simp
  moreover from facts empty have "length (nodes (snd (insert_all id 4 ?kvs ?d))) = 3"
    by simp
  moreover from facts last have "dict_find id 4 1 (snd (insert_all id 4 ?kvs ?d)) = Some 30
      \<and> dict_at id 4 1 (snd (insert_all id 4 ?kvs ?d)) = Inr 30"
    by blast
  ultimately show ?thesis
    using ok by blast
qed

section \<open>Properties of the dictionary: assignment\<close>

lemma assign_chain_keys: "assign_chain key val c = Some c' \<Longrightarrow> map fst c' = map fst c"
  by (induction c arbitrary: c') (auto split: if_splits)

lemma assign_chain_None: "assign_chain key val c = None \<longleftrightarrow> key \<notin> fst ` set c"
  by (induction c) auto

lemma assign_chain_find:
  "assign_chain key val c = Some c' \<Longrightarrow>
     find_chain k c' = (if k = key then Some val else find_chain k c)"
  by (induction c arbitrary: c') (auto split: if_splits)

lemma table_ok_insert_or_assign:
  "table_ok S d \<Longrightarrow> table_ok S (snd (dict_insert_or_assign hash S key val d))"
  by (auto simp: table_ok_def dict_insert_or_assign_def dict_insert_def Let_def
        split: option.splits)

lemma find_insert_or_assign:
  assumes "table_ok S d"
  shows "dict_find hash S k (snd (dict_insert_or_assign hash S key val d))
           = (if k = key then Some val else dict_find hash S k d)"
proof (cases "assign_chain key val (d_table d ! key_index hash S key)")
  case None
  with find_insert [OF assms, of hash k key val] show ?thesis
    by (simp add: dict_insert_or_assign_def Let_def)
next
  case (Some c')
  from assms have i: "key_index hash S key < length (d_table d)"
    by (simp add: table_ok_def key_index_less)
  show ?thesis
  proof (cases "key_index hash S k = key_index hash S key")
    case True
    with Some i assign_chain_find [OF Some, of k] show ?thesis
      by (simp add: dict_insert_or_assign_def dict_find_def Let_def)
  next
    case False
    then have "k \<noteq> key" by auto
    with False Some i show ?thesis
      by (simp add: dict_insert_or_assign_def dict_find_def Let_def)
  qed
qed

lemma insert_or_assign_all_table_ok:
  "table_ok S d \<Longrightarrow> table_ok S (insert_or_assign_all hash S kvs d)"
  by (induction kvs arbitrary: d) (auto simp: table_ok_insert_or_assign)

lemma insert_or_assign_all_find:
  "table_ok S d \<Longrightarrow>
     dict_find hash S key (insert_or_assign_all hash S kvs d)
       = (case map_of (rev kvs) key of Some v \<Rightarrow> Some v | None \<Rightarrow> dict_find hash S key d)"
proof (induction kvs arbitrary: d)
  case Nil
  then show ?case by simp
next
  case (Cons kv kvs)
  obtain k v where kv: "kv = (k, v)" by (cases kv)
  from Cons.prems have ok: "table_ok S (snd (dict_insert_or_assign hash S k v d))"
    by (rule table_ok_insert_or_assign)
  show ?case
    unfolding kv
    by (simp add: Cons.IH [OF ok] find_insert_or_assign [OF Cons.prems] map_add_def
          split: option.splits)
qed

lemma find_dictionary: "0 < S \<Longrightarrow> dict_find hash S key (dictionary S) = None"
  by (simp add: dict_find_def dictionary_def key_index_less)

lemma table_ok_dictionary: "0 < S \<Longrightarrow> table_ok S (dictionary S)"
  by (simp add: table_ok_def dictionary_def)

lemma chains_ok_dictionary: "0 < S \<Longrightarrow> chains_ok hash S (dictionary S)"
  by (simp add: chains_ok_def table_ok_def dictionary_def)

lemma chains_ok_insert_or_assign:
  assumes "chains_ok hash S d"
  shows "chains_ok hash S (snd (dict_insert_or_assign hash S key val d))"
proof -
  let ?i = "key_index hash S key"
  let ?c = "d_table d ! ?i"
  from assms have ok: "table_ok S d" and len: "length (d_table d) = S" and i: "?i < S"
    by (simp_all add: chains_ok_def table_ok_def key_index_less)
  from assms i have dist: "distinct (map fst ?c)"
    and home: "\<forall>n \<in> set ?c. key_index hash S (fst n) = ?i"
    by (simp_all add: chains_ok_def)
  from assms have others: "\<And>j. j < S \<Longrightarrow> distinct (map fst (d_table d ! j))
      \<and> (\<forall>n \<in> set (d_table d ! j). key_index hash S (fst n) = j)"
    by (simp add: chains_ok_def)
  show ?thesis
  proof (cases "assign_chain key val ?c")
    case None
    then have fresh: "key \<notin> fst ` set ?c"
      by (simp add: assign_chain_None)
    have new: "d_table (snd (dict_insert_or_assign hash S key val d))
                 = (d_table d)[?i := (key, val) # ?c]"
      using None by (simp add: dict_insert_or_assign_def dict_insert_def Let_def)
    have "distinct (map fst ((key, val) # ?c))
          \<and> (\<forall>n \<in> set ((key, val) # ?c). key_index hash S (fst n) = ?i)"
      using fresh dist home by auto
    with others len i have "\<forall>j < S. distinct (map fst ((d_table d)[?i := (key, val) # ?c] ! j))
          \<and> (\<forall>n \<in> set ((d_table d)[?i := (key, val) # ?c] ! j). key_index hash S (fst n) = j)"
      by (metis nth_list_update_eq nth_list_update_neq)
    with table_ok_insert_or_assign [OF ok, of hash key val] new show ?thesis
      by (simp add: chains_ok_def)
  next
    case (Some c')
    have new: "d_table (snd (dict_insert_or_assign hash S key val d)) = (d_table d)[?i := c']"
      using Some by (simp add: dict_insert_or_assign_def Let_def)
    from assign_chain_keys [OF Some] have keys: "map fst c' = map fst ?c" .
    then have "fst ` set c' = fst ` set ?c"
      by (metis set_map)
    with home have "\<forall>n \<in> set c'. key_index hash S (fst n) = ?i"
      by (metis (no_types, lifting) image_iff)
    with dist keys have "distinct (map fst c') \<and> (\<forall>n \<in> set c'. key_index hash S (fst n) = ?i)"
      by simp
    with others len i have "\<forall>j < S. distinct (map fst ((d_table d)[?i := c'] ! j))
          \<and> (\<forall>n \<in> set ((d_table d)[?i := c'] ! j). key_index hash S (fst n) = j)"
      by (metis nth_list_update_eq nth_list_update_neq)
    with table_ok_insert_or_assign [OF ok, of hash key val] new show ?thesis
      by (simp add: chains_ok_def)
  qed
qed

lemma insert_or_assign_all_chains_ok:
  "chains_ok hash S d \<Longrightarrow> chains_ok hash S (insert_or_assign_all hash S kvs d)"
  by (induction kvs arbitrary: d) (auto simp: chains_ok_insert_or_assign)

lemma filter_concat_single:
  "j < length xss \<Longrightarrow> (\<forall>i < length xss. i \<noteq> j \<longrightarrow> filter P (xss ! i) = []) \<Longrightarrow>
     filter P (concat xss) = filter P (xss ! j)"
proof (induction xss arbitrary: j)
  case Nil
  then show ?case by simp
next
  case (Cons c xss)
  show ?case
  proof (cases j)
    case 0
    have "filter P (xss ! i) = []" if "i < length xss" for i
      using Cons.prems(2) that 0 by (metis Suc_less_eq length_Cons nat.simps(3) nth_Cons_Suc)
    then have "\<forall>c' \<in> set xss. filter P c' = []"
      by (metis in_set_conv_nth)
    then have "filter P (concat xss) = []"
      by (induction xss) simp_all
    with 0 show ?thesis by simp
  next
    case (Suc j')
    from Cons.prems(2) have "filter P c = []"
      using Suc by (metis length_Cons nat.simps(3) nth_Cons_0 zero_less_Suc)
    moreover from Cons.prems Suc have "j' < length xss" by simp
    moreover have "\<forall>i < length xss. i \<noteq> j' \<longrightarrow> filter P (xss ! i) = []"
      using Cons.prems(2) Suc by (metis Suc_less_eq length_Cons nat.inject nth_Cons_Suc)
    ultimately show ?thesis
      using Cons.IH [of j'] Suc by simp
  qed
qed

lemma distinct_keys_filter:
  "distinct (map fst c) \<Longrightarrow> length (filter (\<lambda>n. fst n = key) c) \<le> 1"
proof (induction c)
  case Nil
  then show ?case by simp
next
  case (Cons n c)
  show ?case
  proof (cases "fst n = key")
    case True
    with Cons.prems have "key \<notin> fst ` set c" by auto
    then have "filter (\<lambda>n. fst n = key) c = []"
      by (auto simp: filter_empty_conv)
    with True show ?thesis by simp
  next
    case False
    with Cons show ?thesis by simp
  qed
qed

lemma chains_ok_key_nodes:
  assumes "chains_ok hash S d"
  shows "length (key_nodes key d) \<le> 1"
proof -
  let ?i = "key_index hash S key"
  from assms have len: "length (d_table d) = S" and i: "?i < length (d_table d)"
    by (simp_all add: chains_ok_def table_ok_def key_index_less)
  have "filter (\<lambda>n. fst n = key) (d_table d ! j) = []" if "j < length (d_table d)" "j \<noteq> ?i" for j
  proof -
    from assms that len have "\<forall>n \<in> set (d_table d ! j). key_index hash S (fst n) = j"
      by (simp add: chains_ok_def)
    with that show ?thesis
      by (auto simp: filter_empty_conv)
  qed
  then have "key_nodes key d = filter (\<lambda>n. fst n = key) (d_table d ! ?i)"
    unfolding key_nodes_def nodes_def using filter_concat_single [OF i] by blast
  moreover from assms i len have "distinct (map fst (d_table d ! ?i))"
    by (simp add: chains_ok_def)
  ultimately show ?thesis
    using distinct_keys_filter [of "d_table d ! ?i" key] by simp
qed

text \<open>
  C1. After any sequence of \<^verbatim>\<open>insert_or_assign\<close> calls on a freshly constructed dictionary,
  \<^verbatim>\<open>find(k)\<close> returns the last value assigned to \<open>k\<close>, the value of the pair \<open>(k, v)\<close> of
  the call sequence \<open>kvs\<close> after which no pair has key \<open>k\<close> (and nothing for a key never
  assigned), and at most one node of the table holds \<open>k\<close>.
\<close>

theorem insert_or_assign_keeps_last_value:
  assumes "0 < S"
  shows "(\<forall>v before after.
            kvs = before @ (key, v) # after \<and> key \<notin> fst ` set after \<longrightarrow>
            dict_find hash S key (insert_or_assign_all hash S kvs (dictionary S)) = Some v)
         \<and> (key \<notin> fst ` set kvs \<longrightarrow>
            dict_find hash S key (insert_or_assign_all hash S kvs (dictionary S)) = None)
         \<and> length (key_nodes key (insert_or_assign_all hash S kvs (dictionary S))) \<le> 1"
proof (intro conjI allI impI)
  from assms have found: "dict_find hash S key (insert_or_assign_all hash S kvs (dictionary S))
           = map_of (rev kvs) key"
    by (simp add: insert_or_assign_all_find table_ok_dictionary find_dictionary
          split: option.splits)
  {
    fix v before after
    assume "kvs = before @ (key, v) # after \<and> key \<notin> fst ` set after"
    then have "map_of (rev kvs) key = Some v"
      using map_of_rev_last [of key after before v] by simp
    with found show "dict_find hash S key (insert_or_assign_all hash S kvs (dictionary S)) = Some v"
      by simp
  next
    assume "key \<notin> fst ` set kvs"
    then have "map_of (rev kvs) key = None"
      by (simp add: map_of_eq_None_iff)
    with found show "dict_find hash S key (insert_or_assign_all hash S kvs (dictionary S)) = None"
      by simp
  }
next
  from assms have "chains_ok hash S (insert_or_assign_all hash S kvs (dictionary S))"
    by (simp add: chains_ok_dictionary insert_or_assign_all_chains_ok)
  then show "length (key_nodes key (insert_or_assign_all hash S kvs (dictionary S))) \<le> 1"
    by (rule chains_ok_key_nodes)
qed

theorem insert_or_assign_keeps_last_value_witness:
  "(0::nat) < 4
   \<and> dict_find id 4 1 (insert_or_assign_all id 4 [(1::nat, 10::int), (5, 20), (1, 30)] (dictionary 4))
       = Some 30
   \<and> dict_find id 4 2 (insert_or_assign_all id 4 [(1::nat, 10::int), (5, 20), (1, 30)] (dictionary 4))
       = None
   \<and> length (key_nodes 1
        (insert_or_assign_all id 4 [(1::nat, 10::int), (5, 20), (1, 30)] (dictionary 4))) \<le> 1"
proof -
  let ?kvs = "[(1::nat, 10::int), (5, 20), (1, 30)]"
  have pos: "(0::nat) < 4" by simp
  have last: "?kvs = [(1, 10), (5, 20)] @ (1, 30) # [] \<and> 1 \<notin> fst ` set ([] :: (nat \<times> int) list)"
    by simp
  have never: "2 \<notin> fst ` set ?kvs"
    by simp
  from insert_or_assign_keeps_last_value [OF pos, where key = 1 and kvs = ?kvs and hash = id] last
  have "dict_find id 4 1 (insert_or_assign_all id 4 ?kvs (dictionary 4)) = Some 30
      \<and> length (key_nodes 1 (insert_or_assign_all id 4 ?kvs (dictionary 4))) \<le> 1"
    by blast
  moreover from insert_or_assign_keeps_last_value [OF pos, where key = 2 and kvs = ?kvs and hash = id] never
  have "dict_find id 4 2 (insert_or_assign_all id 4 ?kvs (dictionary 4)) = None"
    by blast
  ultimately show ?thesis
    using pos by blast
qed

section \<open>Properties of the dictionary: removal\<close>

lemma unlink_chain_None: "unlink_chain key c = None \<longleftrightarrow> \<not> contains_chain key c"
  by (induction c) auto

lemma unlink_chain_Some: "contains_chain key c \<Longrightarrow> \<exists>c'. unlink_chain key c = Some c'"
  by (cases "unlink_chain key c") (simp_all add: unlink_chain_None)

lemma unlink_chain_split:
  "unlink_chain key c = Some c' \<Longrightarrow>
     \<exists>before v after. c = before @ (key, v) # after \<and> key \<notin> fst ` set before
        \<and> c' = before @ after"
proof (induction c arbitrary: c')
  case Nil
  then show ?case by simp
next
  case (Cons n c)
  show ?case
  proof (cases "fst n = key")
    case True
    with Cons.prems have "n # c = [] @ (key, snd n) # c \<and> key \<notin> fst ` set [] \<and> c' = [] @ c"
      by auto
    then show ?thesis by blast
  next
    case False
    with Cons.prems obtain c'' where c'': "unlink_chain key c = Some c''" and c': "c' = n # c''"
      by auto
    from Cons.IH [OF c''] obtain before v after
      where "c = before @ (key, v) # after" "key \<notin> fst ` set before" "c'' = before @ after"
      by blast
    with False c' have "n # c = (n # before) @ (key, v) # after
        \<and> key \<notin> fst ` set (n # before) \<and> c' = (n # before) @ after"
      by auto
    then show ?thesis by blast
  qed
qed

lemma unlink_chain_find:
  "unlink_chain key c = Some c' \<Longrightarrow> k \<noteq> key \<Longrightarrow> find_chain k c' = find_chain k c"
  by (induction c arbitrary: c') (auto split: if_splits)

lemma unlink_chain_filter:
  "unlink_chain key c = Some c' \<Longrightarrow>
     Suc (length (filter (\<lambda>n. fst n = key) c')) = length (filter (\<lambda>n. fst n = key) c)"
  by (induction c arbitrary: c') (auto split: if_splits)

lemma contains_chain_filter:
  "contains_chain key c \<longleftrightarrow> filter (\<lambda>n. fst n = key) c \<noteq> []"
  by (induction c) auto

lemma filter_bucket_le:
  "i < length xss \<Longrightarrow> length (filter P (xss ! i)) \<le> length (filter P (concat xss))"
proof (induction xss arbitrary: i)
  case Nil
  then show ?case by simp
next
  case (Cons c xss)
  show ?case
  proof (cases i)
    case 0
    then show ?thesis by simp
  next
    case (Suc j)
    with Cons.prems have "j < length xss" by simp
    from Cons.IH [OF this] Suc show ?thesis by simp
  qed
qed

lemma table_ok_remove: "table_ok S d \<Longrightarrow> table_ok S (snd (dict_remove hash S key d))"
  by (auto simp: table_ok_def dict_remove_def Let_def split: option.splits)

lemma remove_absent:
  "\<not> dict_contains hash S key d \<Longrightarrow> dict_remove hash S key d = (False, d)"
  by (simp add: dict_contains_def dict_remove_def Let_def unlink_chain_None [symmetric])

lemma contains_remove:
  assumes "table_ok S d"
  shows "dict_contains hash S key (snd (dict_remove hash S key d))
           \<longleftrightarrow> 2 \<le> length (filter (\<lambda>n. fst n = key) (d_table d ! key_index hash S key))"
proof (cases "unlink_chain key (d_table d ! key_index hash S key)")
  case None
  then have "\<not> contains_chain key (d_table d ! key_index hash S key)"
    by (simp add: unlink_chain_None)
  with None show ?thesis
    by (simp add: dict_contains_def dict_remove_def Let_def contains_chain_filter)
next
  case (Some c')
  from assms have i: "key_index hash S key < length (d_table d)"
    by (simp add: table_ok_def key_index_less)
  have "contains_chain key c' \<longleftrightarrow> 0 < length (filter (\<lambda>n. fst n = key) c')"
    by (simp add: contains_chain_filter)
  with unlink_chain_filter [OF Some]
  have "contains_chain key c'
          \<longleftrightarrow> 2 \<le> length (filter (\<lambda>n. fst n = key) (d_table d ! key_index hash S key))"
    by linarith
  with Some i show ?thesis
    by (simp add: dict_contains_def dict_remove_def Let_def)
qed

text \<open>
  C6, as amended. In a table where at most one node holds \<open>k\<close>, \<^verbatim>\<open>remove(k)\<close> followed by
  \<^verbatim>\<open>contains(k)\<close> yields false; and \<^verbatim>\<open>remove(k)\<close> of an absent key returns false and leaves
  the table and the count as they were.
\<close>

theorem remove_then_contains_single:
  assumes "table_ok S d"
  shows "(length (key_nodes key d) \<le> 1
            \<longrightarrow> \<not> dict_contains hash S key (snd (dict_remove hash S key d)))
         \<and> (\<not> dict_contains hash S key d \<longrightarrow> dict_remove hash S key d = (False, d))"
proof (intro conjI impI)
  assume single: "length (key_nodes key d) \<le> 1"
  from assms have "key_index hash S key < length (d_table d)"
    by (simp add: table_ok_def key_index_less)
  from filter_bucket_le [OF this, of "\<lambda>n. fst n = key"] single
  have "length (filter (\<lambda>n. fst n = key) (d_table d ! key_index hash S key)) \<le> 1"
    by (simp add: key_nodes_def nodes_def)
  then show "\<not> dict_contains hash S key (snd (dict_remove hash S key d))"
    by (simp add: contains_remove [OF assms])
next
  assume "\<not> dict_contains hash S key d"
  then show "dict_remove hash S key d = (False, d)"
    by (rule remove_absent)
qed

theorem remove_then_contains_single_witness:
  "table_ok 4 \<lparr>d_table = [[], [], [], [(7::nat, 1::int)]], d_count = 1\<rparr>
   \<and> length (key_nodes 7 \<lparr>d_table = [[], [], [], [(7::nat, 1::int)]], d_count = 1\<rparr>) \<le> 1
   \<and> \<not> dict_contains id 4 7
         (snd (dict_remove id 4 7 \<lparr>d_table = [[], [], [], [(7::nat, 1::int)]], d_count = 1\<rparr>))
   \<and> \<not> dict_contains id 4 3 \<lparr>d_table = [[], [], [], [(7::nat, 1::int)]], d_count = 1\<rparr>
   \<and> dict_remove id 4 3 \<lparr>d_table = [[], [], [], [(7::nat, 1::int)]], d_count = 1\<rparr>
       = (False, \<lparr>d_table = [[], [], [], [(7::nat, 1::int)]], d_count = 1\<rparr>)"
proof -
  let ?d = "\<lparr>d_table = [[], [], [], [(7::nat, 1::int)]], d_count = 1\<rparr>"
  have ok: "table_ok 4 ?d"
    by (simp add: table_ok_def)
  have single: "length (key_nodes 7 ?d) \<le> 1"
    by (simp add: key_nodes_def nodes_def)
  have absent: "\<not> dict_contains id 4 3 ?d"
    by code_simp
  from remove_then_contains_single [OF ok, of 7 id] single
  have "\<not> dict_contains id 4 7 (snd (dict_remove id 4 7 ?d))"
    by blast
  moreover from remove_then_contains_single [OF ok, of 3 id] absent
  have "dict_remove id 4 3 ?d = (False, ?d)"
    by blast
  ultimately show ?thesis
    using ok single absent by blast
qed

text \<open>
  C6, as stated, fails where plain \<^verbatim>\<open>insert\<close> calls left two nodes with one key: one
  \<^verbatim>\<open>remove\<close> unlinks the first of them and \<^verbatim>\<open>contains\<close> still finds the other.
\<close>

theorem remove_leaves_duplicate:
  "dict_contains id 4 (7::nat)
     (snd (dict_remove id 4 7
        (snd (dict_insert id 4 7 (2::int) (snd (dict_insert id 4 7 1 (dictionary 4)))))))"
  by code_simp

lemma find_remove_other:
  assumes "table_ok S d" and "k \<noteq> key"
  shows "dict_find hash S k (snd (dict_remove hash S key d)) = dict_find hash S k d"
proof (cases "unlink_chain key (d_table d ! key_index hash S key)")
  case None
  then show ?thesis by (simp add: dict_remove_def Let_def)
next
  case (Some c')
  from assms have i: "key_index hash S key < length (d_table d)"
    by (simp add: table_ok_def key_index_less)
  show ?thesis
  proof (cases "key_index hash S k = key_index hash S key")
    case True
    with Some i unlink_chain_find [OF Some assms(2)] show ?thesis
      by (simp add: dict_remove_def dict_find_def Let_def)
  next
    case False
    with Some i show ?thesis
      by (simp add: dict_remove_def dict_find_def Let_def)
  qed
qed

lemma remove_other_buckets:
  "i \<noteq> key_index hash S key \<Longrightarrow>
     d_table (snd (dict_remove hash S key d)) ! i = d_table d ! i"
  by (simp add: dict_remove_def Let_def split: option.splits)

lemma remove_present:
  assumes "dict_contains hash S key d"
  shows "\<exists>before v after.
           d_table d ! key_index hash S key = before @ (key, v) # after
           \<and> key \<notin> fst ` set before
           \<and> dict_remove hash S key d
               = (True, d\<lparr>d_table := (d_table d)[key_index hash S key := before @ after],
                          d_count := d_count d - 1\<rparr>)"
proof -
  from assms obtain c' where c': "unlink_chain key (d_table d ! key_index hash S key) = Some c'"
    using unlink_chain_Some [of key "d_table d ! key_index hash S key"]
    by (auto simp: dict_contains_def)
  from unlink_chain_split [OF c'] obtain before v after
    where split: "d_table d ! key_index hash S key = before @ (key, v) # after"
      "key \<notin> fst ` set before" "c' = before @ after"
    by blast
  from c' split(3) have "dict_remove hash S key d
      = (True, d\<lparr>d_table := (d_table d)[key_index hash S key := before @ after],
                 d_count := d_count d - 1\<rparr>)"
    by (simp add: dict_remove_def Let_def)
  with split(1,2) show ?thesis by blast
qed

lemma nodes_remove:
  assumes "table_ok S d" and "dict_contains hash S key d"
  shows "Suc (length (nodes (snd (dict_remove hash S key d)))) = length (nodes d)"
proof -
  from assms(2) obtain c' where c': "unlink_chain key (d_table d ! key_index hash S key) = Some c'"
    using unlink_chain_Some [of key "d_table d ! key_index hash S key"]
    by (auto simp: dict_contains_def)
  from assms have i: "key_index hash S key < length (d_table d)"
    by (simp add: table_ok_def key_index_less)
  from length_concat_update [OF i, of c'] unlink_chain_length [OF c'] c'
  show ?thesis
    by (simp add: dict_remove_def Let_def nodes_def)
qed

lemma remove_after_two_inserts:
  assumes "table_ok S d"
  shows "dict_remove hash S key
           (snd (dict_insert hash S key v2 (snd (dict_insert hash S key v1 d))))
         = (True, snd (dict_insert hash S key v1 d))"
proof -
  from assms have "key_index hash S key < length (d_table d)"
    by (simp add: table_ok_def key_index_less)
  then show ?thesis
    by (simp add: dict_remove_def dict_insert_def Let_def)
qed

text \<open>
  C10. A successful \<^verbatim>\<open>remove(k)\<close> unlinks exactly one node, the first node with key \<open>k\<close> in
  the chain of \<open>k\<close>'s bucket: that chain keeps the nodes before and after it in order, the
  count and the number of reachable nodes drop by one, every other bucket is untouched,
  and \<^verbatim>\<open>find\<close> and \<^verbatim>\<open>contains\<close> of every other key answer as before. After two plain inserts
  of \<open>k\<close> one remove gives back the table as it was after the first insert, in which
  \<open>k\<close> is still found.
\<close>

theorem remove_unlinks_first_match:
  assumes "table_ok S d" and "dict_contains hash S key d"
  shows "(\<exists>before v after.
            d_table d ! key_index hash S key = before @ (key, v) # after
            \<and> key \<notin> fst ` set before
            \<and> dict_remove hash S key d
                = (True, d\<lparr>d_table := (d_table d)[key_index hash S key := before @ after],
                           d_count := d_count d - 1\<rparr>))
         \<and> Suc (length (nodes (snd (dict_remove hash S key d)))) = length (nodes d)
         \<and> (\<forall>i. i \<noteq> key_index hash S key \<longrightarrow>
               d_table (snd (dict_remove hash S key d)) ! i = d_table d ! i)
         \<and> (\<forall>k. k \<noteq> key \<longrightarrow>
               dict_find hash S k (snd (dict_remove hash S key d)) = dict_find hash S k d
               \<and> dict_contains hash S k (snd (dict_remove hash S key d))
                   = dict_contains hash S k d)
         \<and> dict_remove hash S key
             (snd (dict_insert hash S key v2 (snd (dict_insert hash S key v1 d))))
             = (True, snd (dict_insert hash S key v1 d))
         \<and> dict_find hash S key (snd (dict_insert hash S key v1 d)) = Some v1"
proof (intro conjI allI impI)
  show "\<exists>before v after.
            d_table d ! key_index hash S key = before @ (key, v) # after
            \<and> key \<notin> fst ` set before
            \<and> dict_remove hash S key d
                = (True, d\<lparr>d_table := (d_table d)[key_index hash S key := before @ after],
                           d_count := d_count d - 1\<rparr>)"
    using assms(2) by (rule remove_present)
next
  show "Suc (length (nodes (snd (dict_remove hash S key d)))) = length (nodes d)"
    using assms by (rule nodes_remove)
next
  fix i assume "i \<noteq> key_index hash S key"
  then show "d_table (snd (dict_remove hash S key d)) ! i = d_table d ! i"
    by (rule remove_other_buckets)
next
  fix k assume "k \<noteq> key"
  with assms(1) show "dict_find hash S k (snd (dict_remove hash S key d)) = dict_find hash S k d"
    by (rule find_remove_other)
next
  fix k assume "k \<noteq> key"
  with assms(1) have "dict_find hash S k (snd (dict_remove hash S key d)) = dict_find hash S k d"
    by (rule find_remove_other)
  then show "dict_contains hash S k (snd (dict_remove hash S key d)) = dict_contains hash S k d"
    by (simp add: dict_contains_def dict_find_def contains_chain_find)
next
  show "dict_remove hash S key
             (snd (dict_insert hash S key v2 (snd (dict_insert hash S key v1 d))))
             = (True, snd (dict_insert hash S key v1 d))"
    using assms(1) by (rule remove_after_two_inserts)
next
  show "dict_find hash S key (snd (dict_insert hash S key v1 d)) = Some v1"
    using assms(1) by (simp add: find_insert)
qed

theorem remove_unlinks_first_match_witness:
  "table_ok 4 \<lparr>d_table = [[], [], [], [(7::nat, 2::int), (3, 5), (7, 1)]], d_count = 3\<rparr>
   \<and> dict_contains id 4 7 \<lparr>d_table = [[], [], [], [(7::nat, 2::int), (3, 5), (7, 1)]], d_count = 3\<rparr>
   \<and> dict_remove id 4 7 \<lparr>d_table = [[], [], [], [(7::nat, 2::int), (3, 5), (7, 1)]], d_count = 3\<rparr>
       = (True, \<lparr>d_table = [[], [], [], [(3::nat, 5::int), (7, 1)]], d_count = 2\<rparr>)
   \<and> dict_find id 4 3
        (snd (dict_remove id 4 7
           \<lparr>d_table = [[], [], [], [(7::nat, 2::int), (3, 5), (7, 1)]], d_count = 3\<rparr>))
       = dict_find id 4 3 \<lparr>d_table = [[], [], [], [(7::nat, 2::int), (3, 5), (7, 1)]], d_count = 3\<rparr>"
proof -
  let ?d = "\<lparr>d_table = [[], [], [], [(7::nat, 2::int), (3, 5), (7, 1)]], d_count = 3\<rparr>"
  have ok: "table_ok 4 ?d"
    by (simp add: table_ok_def)
  have present: "dict_contains id 4 7 ?d"
    by code_simp
  have result: "dict_remove id 4 7 ?d
      = (True, \<lparr>d_table = [[], [], [], [(3::nat, 5::int), (7, 1)]], d_count = 2\<rparr>)"
    by code_simp
  have other: "(3::nat) \<noteq> 7" by simp
  from remove_unlinks_first_match [OF ok present] other
  have "dict_find id 4 3 (snd (dict_remove id 4 7 ?d)) = dict_find id 4 3 ?d"
    by blast
  with ok present result show ?thesis by blast
qed

section \<open>Properties of the dictionary: conditional emplacement\<close>

lemma find_emplace:
  "table_ok S d \<Longrightarrow>
     dict_find hash S k (snd (dict_emplace hash S key val d))
       = (if k = key then Some val else dict_find hash S k d)"
  using find_insert [of S d hash k key val]
  by (simp add: dict_emplace_def dict_insert_def)

lemma try_emplace_present_unmoved:
  "moved key = key \<Longrightarrow> dict_contains hash S key d \<Longrightarrow>
     dict_try_emplace moved hash S key val d = (False, d)"
  by (simp add: dict_try_emplace_def dict_contains_def Let_def)

lemma try_emplace_absent_unmoved:
  assumes "table_ok S d" and "moved key = key" and "\<not> dict_contains hash S key d"
  shows "fst (dict_try_emplace moved hash S key val d) = True
         \<and> dict_find hash S key (snd (dict_try_emplace moved hash S key val d)) = Some val"
  using assms
  by (simp add: dict_try_emplace_def dict_contains_def Let_def find_emplace)

lemma try_emplace_scan_misses:
  "\<not> contains_chain (moved key) (d_table d ! key_index hash S key) \<Longrightarrow>
     dict_try_emplace moved hash S key val d = (True, snd (dict_emplace hash S key val d))"
  by (simp add: dict_try_emplace_def Let_def)

text \<open>
  C7. \<^verbatim>\<open>try_emplace(k, v)\<close> on a present key should fail and change nothing. With
  \<^verbatim>\<open>std::string\<close> keys the scan compares the chain against the moved-from (empty) key:
  on a table that holds \<^verbatim>\<open>"a"\<close> the call \<^verbatim>\<open>try_emplace("a", 2)\<close> finds no match, links a
  second node for \<^verbatim>\<open>"a"\<close> and returns true, and \<^verbatim>\<open>find("a")\<close> then yields 2; on a
  one-bucket table that holds the empty key, \<^verbatim>\<open>try_emplace("b", 2)\<close> fails although
  \<^verbatim>\<open>"b"\<close> is absent.
\<close>

theorem try_emplace_scans_moved_from_key:
  "dict_try_emplace moved_string length 4 ''a'' (2::int)
       \<lparr>d_table = [[], [(''a'', 1)], [], []], d_count = 1\<rparr>
     = (True, \<lparr>d_table = [[], [(''a'', 2), (''a'', 1)], [], []], d_count = 2\<rparr>)
   \<and> dict_find length 4 ''a''
       (snd (dict_try_emplace moved_string length 4 ''a'' (2::int)
          \<lparr>d_table = [[], [(''a'', 1)], [], []], d_count = 1\<rparr>)) = Some 2
   \<and> dict_contains length 1 ''b'' \<lparr>d_table = [[('''', 0::int)]], d_count = 1\<rparr> = False
   \<and> dict_try_emplace moved_string length 1 ''b'' (2::int)
       \<lparr>d_table = [[('''', 0)]], d_count = 1\<rparr>
     = (False, \<lparr>d_table = [[('''', 0)]], d_count = 1\<rparr>)"
  by code_simp

end
